theory Spec2Isabelle
  imports Main "HOL-Library.Extended_Nat" "HOL-Library.Sublist"
begin

section \<open>Data model of the command processor\<close>

text \<open>
  The development embeds \<^verbatim>\<open>src/libANGLE/renderer/vulkan/CommandProcessor.cpp\<close>.
  Every operation is modelled as one atomic state transformer: the mutexes and condition
  variables of the source are not part of the model.  Every call that leaves the file
  (the Vulkan driver, the renderer, the primary command pool) takes its answer from an
  oracle record \<open>Env\<close>, so that a theorem quantified over \<open>Env\<close> speaks about every
  behaviour of the outside world.
\<close>

text \<open>
  A serial is an ordered token; \<open>Serial::Infinite()\<close> is the top element \<open>\<infinity>\<close>.
\<close>

type_synonym Serial = enat

type_synonym VkResult = int

definition VK_SUCCESS :: VkResult where "VK_SUCCESS = 0"
definition VK_NOT_READY :: VkResult where "VK_NOT_READY = 1"
definition VK_ERROR_OUT_OF_HOST_MEMORY :: VkResult where "VK_ERROR_OUT_OF_HOST_MEMORY = - 1"
definition VK_ERROR_DEVICE_LOST :: VkResult where "VK_ERROR_DEVICE_LOST = - 4"
definition VK_SUBOPTIMAL_KHR :: VkResult where "VK_SUBOPTIMAL_KHR = 1000001003"
definition VK_ERROR_OUT_OF_DATE_KHR :: VkResult where "VK_ERROR_OUT_OF_DATE_KHR = - 1000001004"

definition kInFlightCommandsLimit :: nat where "kInFlightCommandsLimit = 100"

datatype Result = Continue | Stop

datatype CustomTask = Invalid | ProcessCommands | FlushAndQueueSubmit | OneOffQueueSubmit
  | FinishToSerial | Present | CheckCompletedCommands | Exit

text \<open>
  The task object: only the fields an operation of this file reads.  Handles (fences,
  command buffers, pools, swapchains, garbage objects) are natural numbers; an absent or
  moved-from handle is \<open>None\<close>.
\<close>

record CommandProcessorTask =
  mTask :: CustomTask
  mSerial :: Serial
  mGarbage :: "nat list"
  mOneOffFence :: "nat option"
  mSwapchain :: nat

record CommandBatch =
  primaryCommands :: "nat option"
  commandPool :: "nat option"
  fence :: nat
  serial :: Serial

record GarbageAndSerial =
  getGarbage :: "nat list"
  getSerial :: Serial

record Error =
  mErrorCode :: VkResult
  mFile :: "string option"
  mFunction :: "string option"
  mLine :: nat

text \<open>
  The \<open>vk::Context\<close> handed to an operation is either the command processor itself
  (whose \<open>handleError\<close> is in this file) or a context of the caller (whose
  \<open>handleError\<close> is outside it and is only logged).
\<close>

datatype Context = ThisProcessor | CallerContext

text \<open>The side effects an operation has on the outside world, in the order they happen.\<close>

datatype Effect =
    SerialAssigned Serial
  | OnCompletedSerial Serial
  | FenceRecycled nat Serial
  | BatchPoolDestroyed "nat option" Serial
  | PrimaryReleased "nat option" Serial
  | GarbageDestroyed nat Serial
  | FenceWaited nat VkResult
  | BatchDestroyed "nat option" "nat option" nat Serial
  | QueueSubmitted "nat option" VkResult
  | QueuePresented nat VkResult
  | FlushedToPrimary
  | CallerError VkResult
  | PrimaryPoolInitialized
  | PrimaryPoolDestroyed
  | CurrentPoolDestroyed
  | CurrentPrimaryDestroyed

text \<open>The answers of the outside world during one operation.\<close>

record Env =
  getStatus :: "nat \<Rightarrow> VkResult"
  waitFence :: "nat \<Rightarrow> VkResult"
  getStatusAfterWait :: "nat \<Rightarrow> VkResult"
  collectOk :: "nat option \<Rightarrow> bool"
  vkQueueSubmit :: VkResult
  cleanupGarbageOk :: bool
  vkQueuePresentKHR :: VkResult
  primaryEnd :: VkResult
  primaryBegin :: VkResult
  getNextSubmitFence :: "nat option"
  commandPoolInit :: VkResult
  newCommandPool :: nat
  allocatePrimary :: "nat option"
  flushToPrimaryOk :: bool
  primaryPoolInitOk :: bool

record State =
  asynchronousCommandProcessing :: bool
  mInFlightCommands :: "CommandBatch list"
  mGarbageQueue :: "GarbageAndSerial list"
  mSwapchainStatus :: "nat \<rightharpoonup> VkResult"
  mErrors :: "Error list"
  mTasks :: "CommandProcessorTask list"
  mQueueSerialFactory :: nat
  mCommandProcessorLastSubmittedSerial :: Serial
  mCommandProcessorCurrentQueueSerial :: Serial
  mLastCompletedQueueSerial :: Serial
  mPrimaryCommandBuffer :: "nat option"
  mCommandPool :: "nat option"
  workerInitialized :: bool
  workerExited :: bool
  effects :: "Effect list"

definition emit :: "Effect list \<Rightarrow> State \<Rightarrow> State" where
  "emit es s = s\<lparr>effects := effects s @ es\<rparr>"

section \<open>The renderer and the serial factory\<close>

text \<open>
  Modelled from the spec: \<open>RendererVk::onCompletedSerial\<close> and
  \<open>RendererVk::getLastCompletedQueueSerial\<close> are not in the source file.  The spec has the
  sweep notify the renderer of each completed serial and then read \<open>last_completed\<close> back,
  and has a garbage entry reclaimed once its serial is surpassed by \<open>last_completed\<close>: the
  renderer keeps the largest serial it was notified of.
\<close>

definition onCompletedSerial :: "Serial \<Rightarrow> State \<Rightarrow> State" where
  "onCompletedSerial sr s =
     emit [OnCompletedSerial sr]
       (if mLastCompletedQueueSerial s < sr then s\<lparr>mLastCompletedQueueSerial := sr\<rparr> else s)"

definition getLastCompletedQueueSerial :: "State \<Rightarrow> Serial" where
  "getLastCompletedQueueSerial s = mLastCompletedQueueSerial s"

text \<open>
  Modelled from the spec: \<open>SerialFactory::generate\<close> is not in the source file.  The spec
  has the factory issue strictly increasing serials that are never reused, and its scenario
  S1 expects consecutive serials to differ by one: the factory is a counter that returns
  its value and steps by one.
\<close>

definition generate :: "State \<Rightarrow> Serial \<times> State" where
  "generate s = (enat (mQueueSerialFactory s), s\<lparr>mQueueSerialFactory := Suc (mQueueSerialFactory s)\<rparr>)"

section \<open>TaskProcessor\<close>

text \<open>\<open>CommandBatch::destroy\<close>: primary, pool and fence are destroyed, not recycled.\<close>

definition batchDestroy :: "CommandBatch \<Rightarrow> State \<Rightarrow> State" where
  "batchDestroy b s = emit [BatchDestroyed (primaryCommands b) (commandPool b) (fence b) (serial b)] s"

text \<open>\<open>TaskProcessor::handleDeviceLost\<close>: wait on every fence, destroy every batch, clear the list.\<close>

fun deviceLostBatches :: "Env \<Rightarrow> CommandBatch list \<Rightarrow> State \<Rightarrow> State" where
  "deviceLostBatches env [] s = s"
| "deviceLostBatches env (b # bs) s =
     deviceLostBatches env bs
       (batchDestroy b (emit [FenceWaited (fence b) (waitFence env (fence b))] s))"

definition handleDeviceLost :: "Env \<Rightarrow> State \<Rightarrow> State" where
  "handleDeviceLost env s =
     (deviceLostBatches env (mInFlightCommands s) s)\<lparr>mInFlightCommands := []\<rparr>"

text \<open>
  \<open>CommandProcessor::handleError\<close>, and the \<open>handleError\<close> of a caller's context, which
  is outside the file and is logged as \<open>CallerError\<close>.  The file and function names and the
  line of the record are those of the failing call site; the model keeps the code only.  On
  a lost device the source goes through \<open>CommandProcessor::handleDeviceLost\<close>, which takes
  the worker mutex and in asynchronous mode waits for an idle worker before it calls
  \<open>TaskProcessor::handleDeviceLost\<close>; the model calls the latter at once.
\<close>

definition mkError :: "VkResult \<Rightarrow> Error" where
  "mkError r = \<lparr>mErrorCode = r, mFile = Some ''CommandProcessor.cpp'', mFunction = Some ''processTask'', mLine = 0\<rparr>"

definition handleError :: "Context \<Rightarrow> Env \<Rightarrow> VkResult \<Rightarrow> State \<Rightarrow> State" where
  "handleError ctx env errorCode s =
     (case ctx of
        CallerContext \<Rightarrow> emit [CallerError errorCode] s
      | ThisProcessor \<Rightarrow>
          (let s1 = (if errorCode = VK_ERROR_DEVICE_LOST then handleDeviceLost env s else s)
           in s1\<lparr>mErrors := mErrors s1 @ [mkError errorCode]\<rparr>))"

text \<open>
  The first loop of \<open>checkCompletedCommandsNoLock\<close>: it stops at the first fence that is
  not ready, and leaves the function (\<open>ANGLE_VK_TRY\<close>, \<open>ANGLE_TRY\<close>) when a status is an
  error or a primary buffer cannot be returned to its pool.  The count is \<open>finishedCount\<close>.
\<close>

fun sweepBatches ::
  "Context \<Rightarrow> Env \<Rightarrow> (nat \<Rightarrow> VkResult) \<Rightarrow> CommandBatch list \<Rightarrow> nat \<Rightarrow> State \<Rightarrow> Result \<times> nat \<times> State" where
  "sweepBatches ctx env st [] n s = (Continue, n, s)"
| "sweepBatches ctx env st (b # bs) n s =
     (let result = st (fence b) in
      if result = VK_NOT_READY then (Continue, n, s)
      else if result \<noteq> VK_SUCCESS then (Stop, n, handleError ctx env result s)
      else
        (let s1 = onCompletedSerial (serial b) s;
             s2 = emit [FenceRecycled (fence b) (serial b),
                        BatchPoolDestroyed (commandPool b) (serial b)] s1
         in if \<not> collectOk env (primaryCommands b) then (Stop, n, s2)
            else sweepBatches ctx env st bs (Suc n)
                   (emit [PrimaryReleased (primaryCommands b) (serial b)] s2)))"

text \<open>The second loop: \<open>freeIndex\<close> and the destruction of the garbage objects passed.\<close>

fun sweepGarbage :: "Serial \<Rightarrow> GarbageAndSerial list \<Rightarrow> nat \<times> Effect list" where
  "sweepGarbage lastCompleted [] = (0, [])"
| "sweepGarbage lastCompleted (g # gs) =
     (if getSerial g \<le> lastCompleted then
        (let (k, es) = sweepGarbage lastCompleted gs
         in (Suc k, map (\<lambda>x. GarbageDestroyed x (getSerial g)) (getGarbage g) @ es))
      else (0, []))"

definition checkCompletedCommandsNoLock ::
  "Context \<Rightarrow> Env \<Rightarrow> (nat \<Rightarrow> VkResult) \<Rightarrow> State \<Rightarrow> Result \<times> State" where
  "checkCompletedCommandsNoLock ctx env st s =
     (case sweepBatches ctx env st (mInFlightCommands s) 0 s of
        (Stop, finishedCount, s1) \<Rightarrow> (Stop, s1)
      | (Continue, finishedCount, s1) \<Rightarrow>
          (let s2 = (if finishedCount > 0
                     then s1\<lparr>mInFlightCommands := drop finishedCount (mInFlightCommands s1)\<rparr>
                     else s1);
               lastCompleted = getLastCompletedQueueSerial s2;
               (freeIndex, es) = sweepGarbage lastCompleted (mGarbageQueue s2);
               s3 = emit es s2
           in (Continue,
               if freeIndex > 0 then s3\<lparr>mGarbageQueue := drop freeIndex (mGarbageQueue s3)\<rparr> else s3)))"

definition lockAndCheckCompletedCommands ::
  "Context \<Rightarrow> Env \<Rightarrow> (nat \<Rightarrow> VkResult) \<Rightarrow> State \<Rightarrow> Result \<times> State" where
  "lockAndCheckCompletedCommands ctx env st s = checkCompletedCommandsNoLock ctx env st s"

text \<open>
  The scan of \<open>TaskProcessor::finishToSerial\<close>: \<open>batchIndex\<close> starts at the last index and
  becomes the first index whose serial is at least the requested one, when there is one.
\<close>

fun firstAtLeast :: "Serial \<Rightarrow> CommandBatch list \<Rightarrow> nat \<Rightarrow> nat option" where
  "firstAtLeast sr [] i = None"
| "firstAtLeast sr (b # bs) i = (if serial b \<ge> sr then Some i else firstAtLeast sr bs (Suc i))"

definition batchIndex :: "Serial \<Rightarrow> CommandBatch list \<Rightarrow> nat" where
  "batchIndex sr bs = (case firstAtLeast sr bs 0 of Some i \<Rightarrow> i | None \<Rightarrow> length bs - 1)"

definition finishToSerial :: "Context \<Rightarrow> Env \<Rightarrow> Serial \<Rightarrow> State \<Rightarrow> Result \<times> State" where
  "finishToSerial ctx env sr s =
     (if mInFlightCommands s = [] then (Continue, s)
      else
        (let batch = mInFlightCommands s ! batchIndex sr (mInFlightCommands s);
             r = waitFence env (fence batch);
             s1 = emit [FenceWaited (fence batch) r] s
         in if r \<noteq> VK_SUCCESS then (Stop, handleError ctx env r s1)
            else lockAndCheckCompletedCommands ctx env (getStatusAfterWait env) s1))"

text \<open>
  \<open>TaskProcessor::present\<close> and \<open>TaskProcessor::getLastAndClearPresentResult\<close>.  The
  reader waits on a condition variable while the map has no entry for its swapchain:
  \<open>None\<close> is that wait.
\<close>

definition present :: "Env \<Rightarrow> nat \<Rightarrow> State \<Rightarrow> VkResult \<times> State" where
  "present env swapchain s =
     (let result = vkQueuePresentKHR env;
          s1 = emit [QueuePresented swapchain result] s
      in (result, s1\<lparr>mSwapchainStatus := (mSwapchainStatus s1)(swapchain \<mapsto> result)\<rparr>))"

definition getLastAndClearPresentResult :: "nat \<Rightarrow> State \<Rightarrow> (VkResult \<times> State) option" where
  "getLastAndClearPresentResult swapchain s =
     (case mSwapchainStatus s swapchain of
        None \<Rightarrow> None
      | Some result \<Rightarrow> Some (result, s\<lparr>mSwapchainStatus := (mSwapchainStatus s)(swapchain := None)\<rparr>))"

definition queueSubmit :: "Context \<Rightarrow> Env \<Rightarrow> nat option \<Rightarrow> State \<Rightarrow> Result \<times> State" where
  "queueSubmit ctx env fenceHandle s =
     (let r = vkQueueSubmit env;
          s1 = emit [QueueSubmitted fenceHandle r] s
      in if r \<noteq> VK_SUCCESS then (Stop, handleError ctx env r s1)
         else (if cleanupGarbageOk env then Continue else Stop, s1))"

text \<open>
  \<open>TaskProcessor::releaseToCommandBatch\<close>: the current primary buffer moves into the
  batch; a valid command pool moves too and is created again.
\<close>

definition releaseToCommandBatch ::
  "Context \<Rightarrow> Env \<Rightarrow> CommandBatch \<Rightarrow> State \<Rightarrow> Result \<times> CommandBatch \<times> State" where
  "releaseToCommandBatch ctx env batch s =
     (let batch1 = batch\<lparr>primaryCommands := mPrimaryCommandBuffer s\<rparr>;
          s1 = s\<lparr>mPrimaryCommandBuffer := None\<rparr>
      in if mCommandPool s1 \<noteq> None then
           (let batch2 = batch1\<lparr>commandPool := mCommandPool s1\<rparr>;
                r = commandPoolInit env
            in if r \<noteq> VK_SUCCESS
               then (Stop, batch2, handleError ctx env r (s1\<lparr>mCommandPool := None\<rparr>))
               else (Continue, batch2, s1\<lparr>mCommandPool := Some (newCommandPool env)\<rparr>))
         else (Continue, batch1, s1))"

text \<open>
  The end of \<open>TaskProcessor::submitFrame\<close>: the CPU is throttled when the in-flight list
  is longer than the limit.
\<close>

definition throttle :: "Context \<Rightarrow> Env \<Rightarrow> State \<Rightarrow> Result \<times> State" where
  "throttle ctx env s5 =
     (if length (mInFlightCommands s5) > kInFlightCommandsLimit then
        (let numCommandsToFinish = length (mInFlightCommands s5) - kInFlightCommandsLimit;
             finishSerial = serial (mInFlightCommands s5 ! numCommandsToFinish)
         in finishToSerial ctx env finishSerial s5)
      else (Continue, s5))"

text \<open>
  \<open>TaskProcessor::submitFrame\<close>.  The batch lives in a \<open>DeviceScoped\<close> holder until it is
  appended to the in-flight list: a return before that point destroys it.
\<close>

definition submitFrame ::
  "Context \<Rightarrow> Env \<Rightarrow> nat \<Rightarrow> nat list \<Rightarrow> Serial \<Rightarrow> State \<Rightarrow> Result \<times> State" where
  "submitFrame ctx env sharedFence currentGarbage queueSerial s =
     (let batch = \<lparr>primaryCommands = None, commandPool = None, fence = sharedFence, serial = queueSerial\<rparr>
      in case queueSubmit ctx env (Some sharedFence) s of
           (Stop, s1) \<Rightarrow> (Stop, batchDestroy batch s1)
         | (Continue, s1) \<Rightarrow>
             (let s2 = (if currentGarbage \<noteq> []
                        then s1\<lparr>mGarbageQueue := mGarbageQueue s1 @
                                 [\<lparr>getGarbage = currentGarbage, getSerial = queueSerial\<rparr>]\<rparr>
                        else s1)
              in case releaseToCommandBatch ctx env batch s2 of
                   (Stop, batch1, s3) \<Rightarrow> (Stop, batchDestroy batch1 s3)
                 | (Continue, batch1, s3) \<Rightarrow>
                     (let s4 = s3\<lparr>mInFlightCommands := mInFlightCommands s3 @ [batch1]\<rparr>
                      in case checkCompletedCommandsNoLock ctx env (getStatus env) s4 of
                           (Stop, s5) \<Rightarrow> (Stop, s5)
                         | (Continue, s5) \<Rightarrow> throttle ctx env s5)))"

section \<open>CommandProcessor\<close>

definition getAndClearPendingError :: "State \<Rightarrow> Error \<times> State" where
  "getAndClearPendingError s =
     (let tmpError = \<lparr>mErrorCode = VK_SUCCESS, mFile = None, mFunction = None, mLine = 0\<rparr>
      in case mErrors s of
           [] \<Rightarrow> (tmpError, s)
         | e # es \<Rightarrow> (e, s\<lparr>mErrors := es\<rparr>))"

definition getLastSubmittedSerial :: "State \<Rightarrow> Serial" where
  "getLastSubmittedSerial s = mCommandProcessorLastSubmittedSerial s"

definition getCurrentQueueSerial :: "State \<Rightarrow> Serial" where
  "getCurrentQueueSerial s = mCommandProcessorCurrentQueueSerial s"

definition allocateAndBegin :: "Context \<Rightarrow> Env \<Rightarrow> State \<Rightarrow> Result \<times> State" where
  "allocateAndBegin ctx env s =
     (case allocatePrimary env of
        None \<Rightarrow> (Stop, s)
      | Some p \<Rightarrow>
          (let s1 = s\<lparr>mPrimaryCommandBuffer := Some p\<rparr>; r = primaryBegin env
           in if r \<noteq> VK_SUCCESS then (Stop, handleError ctx env r s1) else (Continue, s1)))"

definition initTaskProcessor :: "Context \<Rightarrow> Env \<Rightarrow> State \<Rightarrow> Result \<times> State" where
  "initTaskProcessor ctx env s =
     (if \<not> primaryPoolInitOk env then (Stop, s)
      else allocateAndBegin ctx env (emit [PrimaryPoolInitialized] s))"

text \<open>\<open>CommandProcessor::processTask\<close>, one equation per case of the switch.\<close>

definition processExit :: "Context \<Rightarrow> Env \<Rightarrow> State \<Rightarrow> Result \<times> State" where
  "processExit ctx env s =
     (case finishToSerial ctx env \<infinity> s of
        (Stop, s1) \<Rightarrow> (Stop, s1)
      | (Continue, s1) \<Rightarrow>
          (Continue,
           (emit [PrimaryPoolDestroyed, CurrentPoolDestroyed, CurrentPrimaryDestroyed] s1)
             \<lparr>mCommandPool := None, mPrimaryCommandBuffer := None\<rparr>))"

definition processFlushAndQueueSubmit ::
  "Context \<Rightarrow> Env \<Rightarrow> CommandProcessorTask \<Rightarrow> State \<Rightarrow> Result \<times> State" where
  "processFlushAndQueueSubmit ctx env task s =
     (let r = primaryEnd env
      in if r \<noteq> VK_SUCCESS then (Stop, handleError ctx env r s)
         else case getNextSubmitFence env of
                None \<Rightarrow> (Stop, s)
              | Some f \<Rightarrow>
                  (case submitFrame ctx env f (mGarbage task) (mSerial task) s of
                     (Stop, s1) \<Rightarrow> (Stop, s1)
                   | (Continue, s1) \<Rightarrow> allocateAndBegin ctx env s1))"

definition processPresent ::
  "Context \<Rightarrow> Env \<Rightarrow> CommandProcessorTask \<Rightarrow> State \<Rightarrow> Result \<times> State" where
  "processPresent ctx env task s =
     (let (result, s1) = present env (mSwapchain task) s
      in if result = VK_ERROR_OUT_OF_DATE_KHR \<or> result = VK_SUBOPTIMAL_KHR then (Continue, s1)
         else if result \<noteq> VK_SUCCESS then (Continue, handleError ctx env result s1)
         else (Continue, s1))"

definition processOneOffQueueSubmit ::
  "Context \<Rightarrow> Env \<Rightarrow> CommandProcessorTask \<Rightarrow> State \<Rightarrow> Result \<times> State" where
  "processOneOffQueueSubmit ctx env task s =
     (case queueSubmit ctx env (mOneOffFence task) s of
        (Stop, s1) \<Rightarrow> (Stop, s1)
      | (Continue, s1) \<Rightarrow> lockAndCheckCompletedCommands ctx env (getStatus env) s1)"

definition processTask :: "Context \<Rightarrow> Env \<Rightarrow> CommandProcessorTask \<Rightarrow> State \<Rightarrow> Result \<times> State" where
  "processTask ctx env task s =
     (case mTask task of
        Exit \<Rightarrow> processExit ctx env s
      | FlushAndQueueSubmit \<Rightarrow> processFlushAndQueueSubmit ctx env task s
      | OneOffQueueSubmit \<Rightarrow> processOneOffQueueSubmit ctx env task s
      | FinishToSerial \<Rightarrow> finishToSerial ctx env (mSerial task) s
      | Present \<Rightarrow> processPresent ctx env task s
      | ProcessCommands \<Rightarrow>
          (if flushToPrimaryOk env then (Continue, emit [FlushedToPrimary] s) else (Stop, s))
      | CheckCompletedCommands \<Rightarrow> lockAndCheckCompletedCommands ThisProcessor env (getStatus env) s
      | Invalid \<Rightarrow> (Continue, s))"

text \<open>
  \<open>CommandProcessor::queueCommand\<close>.  The task is passed by pointer: the caller sees the
  serial it was given, so the model returns the task too.  \<open>SerialAssigned\<close> stands for
  the release of the task's resource use list against its serial.  In synchronous mode the
  result of \<open>processTask\<close> is ignored.
\<close>

definition assignSerial :: "CommandProcessorTask \<Rightarrow> State \<Rightarrow> CommandProcessorTask \<times> State" where
  "assignSerial task s =
     (if mTask task = FlushAndQueueSubmit \<or> mTask task = OneOffQueueSubmit then
        (let queueSerial = mCommandProcessorCurrentQueueSerial s;
             task1 = task\<lparr>mSerial := queueSerial\<rparr>;
             s1 = s\<lparr>mCommandProcessorLastSubmittedSerial := mCommandProcessorCurrentQueueSerial s\<rparr>;
             (g, s2) = generate s1;
             s3 = s2\<lparr>mCommandProcessorCurrentQueueSerial := g\<rparr>
         in (task1, emit [SerialAssigned queueSerial] s3))
      else (task, s))"

definition queueCommand ::
  "Context \<Rightarrow> Env \<Rightarrow> CommandProcessorTask \<Rightarrow> State \<Rightarrow> CommandProcessorTask \<times> State" where
  "queueCommand ctx env task s =
     (let (task1, s1) = assignSerial task s
      in if asynchronousCommandProcessing s1
         then (task1, s1\<lparr>mTasks := mTasks s1 @ [task1]\<rparr>)
         else (task1, snd (processTask ctx env task1 s1)))"

text \<open>
  One turn of the worker thread (\<open>processTasks\<close> around \<open>processTasksImpl\<close>): it
  initialises the task processor when it enters \<open>processTasksImpl\<close>, sleeps while the queue
  is empty, and otherwise pops and processes the oldest task.  A \<open>Stop\<close> leaves
  \<open>processTasksImpl\<close>, which \<open>processTasks\<close> then enters again; \<open>Exit\<close> ends the thread.
\<close>

definition workerStep :: "Env \<Rightarrow> State \<Rightarrow> State" where
  "workerStep env s =
     (if workerExited s then s
      else if \<not> workerInitialized s then
        (case initTaskProcessor ThisProcessor env s of
           (Continue, s1) \<Rightarrow> s1\<lparr>workerInitialized := True\<rparr>
         | (Stop, s1) \<Rightarrow> s1)
      else case mTasks s of
             [] \<Rightarrow> s
           | task # rest \<Rightarrow>
               (case processTask ThisProcessor env task (s\<lparr>mTasks := rest\<rparr>) of
                  (Stop, s1) \<Rightarrow> s1\<lparr>workerInitialized := False\<rparr>
                | (Continue, s1) \<Rightarrow> if mTask task = Exit then s1\<lparr>workerExited := True\<rparr> else s1))"

text \<open>
  The constructor: the two serial variables take the first two serials of the factory, and
  the error queue is emptied.  The first value of the factory is not in the source file;
  the model starts it at one.
\<close>

definition newCommandProcessor :: "bool \<Rightarrow> State" where
  "newCommandProcessor async =
     (let s0 = \<lparr>asynchronousCommandProcessing = async, mInFlightCommands = [], mGarbageQueue = [],
                 mSwapchainStatus = Map.empty, mErrors = [], mTasks = [], mQueueSerialFactory = 1,
                 mCommandProcessorLastSubmittedSerial = 0, mCommandProcessorCurrentQueueSerial = 0,
                 mLastCompletedQueueSerial = 0, mPrimaryCommandBuffer = None, mCommandPool = None,
                 workerInitialized = False, workerExited = False, effects = []\<rparr>;
          (a, s1) = generate s0;
          (b, s2) = generate s1
      in s2\<lparr>mCommandProcessorLastSubmittedSerial := a, mCommandProcessorCurrentQueueSerial := b\<rparr>)"

text \<open>
  What the outside can do to a command processor, and a run of such events.  The command
  pool of the processor is created outside this file: \<open>SetCommandPool\<close> is that.
\<close>

datatype Event =
    QueueCommand Context Env CommandProcessorTask
  | WorkerStep Env
  | InitTaskProcessor Context Env
  | SetCommandPool "nat option"
  | HandleDeviceLost Env
  | GetAndClearPendingError
  | GetLastAndClearPresentResult nat

fun step :: "Event \<Rightarrow> State \<Rightarrow> State" where
  "step (QueueCommand ctx env task) s = snd (queueCommand ctx env task s)"
| "step (WorkerStep env) s = (if asynchronousCommandProcessing s then workerStep env s else s)"
| "step (InitTaskProcessor ctx env) s = snd (initTaskProcessor ctx env s)"
| "step (SetCommandPool p) s = s\<lparr>mCommandPool := p\<rparr>"
| "step (HandleDeviceLost env) s = handleDeviceLost env s"
| "step GetAndClearPendingError s = snd (getAndClearPendingError s)"
| "step (GetLastAndClearPresentResult sc) s =
     (case getLastAndClearPresentResult sc s of None \<Rightarrow> s | Some (r, s1) \<Rightarrow> s1)"

fun run :: "Event list \<Rightarrow> State \<Rightarrow> State" where
  "run [] s = s"
| "run (e # es) s = run es (step e s)"

text \<open>
  The part of the state that belongs to the facade and the worker loop: the two serial
  variables, the factory, the mode flag, the task queue and the position of the worker.
\<close>

definition facade :: "State \<Rightarrow> Serial \<times> Serial \<times> nat \<times> bool \<times> CommandProcessorTask list \<times> bool \<times> bool" where
  "facade s = (mCommandProcessorLastSubmittedSerial s, mCommandProcessorCurrentQueueSerial s,
     mQueueSerialFactory s, asynchronousCommandProcessing s, mTasks s, workerInitialized s, workerExited s)"

text \<open>Concrete inputs for the examples.\<close>

definition envReady :: Env where
  "envReady = \<lparr>getStatus = (\<lambda>f. VK_SUCCESS), waitFence = (\<lambda>f. VK_SUCCESS),
     getStatusAfterWait = (\<lambda>f. VK_SUCCESS), collectOk = (\<lambda>p. True), vkQueueSubmit = VK_SUCCESS,
     cleanupGarbageOk = True, vkQueuePresentKHR = VK_SUCCESS, primaryEnd = VK_SUCCESS,
     primaryBegin = VK_SUCCESS, getNextSubmitFence = Some 7, commandPoolInit = VK_SUCCESS,
     newCommandPool = 8, allocatePrimary = Some 9, flushToPrimaryOk = True,
     primaryPoolInitOk = True\<rparr>"

definition envBusy :: Env where
  "envBusy = envReady\<lparr>getStatus := (\<lambda>f. VK_NOT_READY)\<rparr>"

definition mkTask :: "CustomTask \<Rightarrow> CommandProcessorTask" where
  "mkTask c = \<lparr>mTask = c, mSerial = 0, mGarbage = [], mOneOffFence = None, mSwapchain = 0\<rparr>"

text \<open>
  The serial variables in every reachable state: the last submitted serial, the current
  serial and the next value of the factory are three consecutive numbers.
\<close>

definition serialInv :: "State \<Rightarrow> bool" where
  "serialInv s = (\<exists>n. mCommandProcessorLastSubmittedSerial s = enat n \<and>
       mCommandProcessorCurrentQueueSerial s = enat (Suc n) \<and> mQueueSerialFactory s = Suc (Suc n))"

text \<open>Repeated calls of \<open>getAndClearPendingError\<close>, as a producer makes them.\<close>

fun drainErrors :: "nat \<Rightarrow> State \<Rightarrow> Error list \<times> State" where
  "drainErrors 0 s = ([], s)"
| "drainErrors (Suc n) s =
     (let (e, s1) = getAndClearPendingError s; (es, s2) = drainErrors n s1 in (e # es, s2))"

definition twoErrors :: State where
  "twoErrors = handleError ThisProcessor envReady VK_ERROR_DEVICE_LOST
     (handleError ThisProcessor envReady VK_ERROR_OUT_OF_HOST_MEMORY (newCommandProcessor True))"

definition presented :: State where
  "presented = snd (present (envReady\<lparr>vkQueuePresentKHR := VK_SUBOPTIMAL_KHR\<rparr>) 1
                 (snd (present envReady 2 (newCommandProcessor False))))"








text \<open>
  A state of synchronous mode with two submissions in flight, each with garbage, reached
  from the constructor while the GPU reports every fence as not ready.
\<close>

definition envFence :: "nat \<Rightarrow> Env" where
  "envFence k = envBusy\<lparr>getNextSubmitFence := Some k\<rparr>"

definition flushWith :: "nat list \<Rightarrow> CommandProcessorTask" where
  "flushWith g = (mkTask FlushAndQueueSubmit)\<lparr>mGarbage := g\<rparr>"

definition twoInFlight :: State where
  "twoInFlight = run [InitTaskProcessor CallerContext envReady, SetCommandPool (Some 5),
      QueueCommand CallerContext (envFence 1) (flushWith [40]),
      QueueCommand CallerContext (envFence 2) (flushWith [41])] (newCommandProcessor False)"








text \<open>
  The serials of the submissions that are still in the task queue, and the order of all
  serials the processor holds: those of the in-flight list, then those of the queue, are
  strictly increasing and below the current queue serial.
\<close>

definition queuedSerials :: "State \<Rightarrow> Serial list" where
  "queuedSerials s = map mSerial (filter (\<lambda>t. mTask t = FlushAndQueueSubmit) (mTasks s))"

definition ordered :: "Serial \<Rightarrow> CommandBatch list \<Rightarrow> Serial list \<Rightarrow> bool" where
  "ordered c bs qs = (sorted_wrt (<) (map serial bs @ qs) \<and> (\<forall>x \<in> set (map serial bs @ qs). x < c))"

definition orderInv :: "State \<Rightarrow> bool" where
  "orderInv s = (ordered (mCommandProcessorCurrentQueueSerial s) (mInFlightCommands s) (queuedSerials s) \<and>
     (\<not> asynchronousCommandProcessing s \<longrightarrow> mTasks s = []))"












section \<open>The facade state is untouched by the task handlers\<close>

lemma facade_emit: "facade (emit es s) = facade s"
  by (simp add: facade_def emit_def)

lemma facade_onCompletedSerial: "facade (onCompletedSerial sr s) = facade s"
  by (simp add: onCompletedSerial_def facade_emit) (simp add: facade_def)

lemma facade_batchDestroy: "facade (batchDestroy b s) = facade s"
  by (simp add: batchDestroy_def facade_emit)

lemma facade_deviceLostBatches: "facade (deviceLostBatches env bs s) = facade s"
  by (induction bs arbitrary: s) (simp_all add: facade_batchDestroy facade_emit)

lemma facade_inflight_upd: "facade (s\<lparr>mInFlightCommands := x\<rparr>) = facade s"
  and facade_garbage_upd: "facade (s\<lparr>mGarbageQueue := y\<rparr>) = facade s"
  and facade_errors_upd: "facade (s\<lparr>mErrors := z\<rparr>) = facade s"
  and facade_swap_upd: "facade (s\<lparr>mSwapchainStatus := w\<rparr>) = facade s"
  and facade_prim_upd: "facade (s\<lparr>mPrimaryCommandBuffer := p\<rparr>) = facade s"
  and facade_pool_upd: "facade (s\<lparr>mCommandPool := q\<rparr>) = facade s"
  by (simp_all add: facade_def)

lemmas facade_upds = facade_inflight_upd facade_garbage_upd facade_errors_upd facade_swap_upd
  facade_prim_upd facade_pool_upd facade_emit

lemma facade_handleDeviceLost: "facade (handleDeviceLost env s) = facade s"
  by (simp add: handleDeviceLost_def facade_upds facade_deviceLostBatches)

lemma facade_handleError: "facade (handleError ctx env r s) = facade s"
  by (simp add: handleError_def Let_def facade_upds facade_handleDeviceLost split: Context.splits)

lemma facade_sweepBatches: "facade (snd (snd (sweepBatches ctx env st bs n s))) = facade s"
  by (induction bs arbitrary: n s)
     (simp_all add: Let_def facade_handleError facade_upds facade_onCompletedSerial)

lemma facade_checkCompleted: "facade (snd (checkCompletedCommandsNoLock ctx env st s)) = facade s"
proof -
  obtain r k s1 where sw: "sweepBatches ctx env st (mInFlightCommands s) 0 s = (r, k, s1)"
    by (cases "sweepBatches ctx env st (mInFlightCommands s) 0 s") auto
  have "facade s1 = facade s" using facade_sweepBatches[of ctx env st "mInFlightCommands s" 0 s] sw by simp
  then show ?thesis
    by (cases r) (simp_all add: checkCompletedCommandsNoLock_def sw Let_def facade_upds split: prod.splits)
qed

lemma facade_finishToSerial: "facade (snd (finishToSerial ctx env sr s)) = facade s"
  by (simp add: finishToSerial_def Let_def lockAndCheckCompletedCommands_def facade_checkCompleted
      facade_handleError facade_upds)

lemma facade_queueSubmit: "facade (snd (queueSubmit ctx env f s)) = facade s"
  by (simp add: queueSubmit_def Let_def facade_handleError facade_upds)

lemma facade_releaseToCommandBatch: "facade (snd (snd (releaseToCommandBatch ctx env b s))) = facade s"
  by (simp add: releaseToCommandBatch_def Let_def facade_handleError facade_upds)

lemma facade_throttle: "facade (snd (throttle ctx env s)) = facade s"
  by (simp add: throttle_def Let_def facade_finishToSerial)

lemma facade_submitFrame: "facade (snd (submitFrame ctx env f g sr s)) = facade s"
proof -
  let ?b = "\<lparr>primaryCommands = None, commandPool = None, fence = f, serial = sr\<rparr>"
  obtain r1 s1 where q: "queueSubmit ctx env (Some f) s = (r1, s1)" by (cases "queueSubmit ctx env (Some f) s") auto
  have f1: "facade s1 = facade s" using facade_queueSubmit[of ctx env "Some f" s] q by simp
  show ?thesis
  proof (cases r1)
    case Stop then show ?thesis by (simp add: submitFrame_def q facade_batchDestroy f1)
  next
    case Continue
    define s2 where "s2 = (if g \<noteq> [] then s1\<lparr>mGarbageQueue := mGarbageQueue s1 @ [\<lparr>getGarbage = g, getSerial = sr\<rparr>]\<rparr> else s1)"
    have f2: "facade s2 = facade s" by (simp add: s2_def facade_upds f1)
    obtain r3 b3 s3 where rl: "releaseToCommandBatch ctx env ?b s2 = (r3, b3, s3)"
      by (cases "releaseToCommandBatch ctx env ?b s2") auto
    have f3: "facade s3 = facade s" using facade_releaseToCommandBatch[of ctx env ?b s2] rl f2 by simp
    show ?thesis
    proof (cases r3)
      case Stop then show ?thesis using Continue
        by (simp add: submitFrame_def q Let_def rl facade_batchDestroy f3 s2_def[symmetric])
    next
      case c3: Continue
      define s4 where "s4 = s3\<lparr>mInFlightCommands := mInFlightCommands s3 @ [b3]\<rparr>"
      have f4: "facade s4 = facade s" by (simp add: s4_def facade_upds f3)
      obtain r5 s5 where ck: "checkCompletedCommandsNoLock ctx env (getStatus env) s4 = (r5, s5)"
        by (cases "checkCompletedCommandsNoLock ctx env (getStatus env) s4") auto
      have f5: "facade s5 = facade s" using facade_checkCompleted[of ctx env "getStatus env" s4] ck f4 by simp
      show ?thesis using Continue c3
        by (cases r5) (simp_all add: submitFrame_def q Let_def rl s2_def[symmetric] s4_def[symmetric] ck f5 facade_throttle)
    qed
  qed
qed

lemma facade_allocateAndBegin: "facade (snd (allocateAndBegin ctx env s)) = facade s"
  by (simp add: allocateAndBegin_def Let_def facade_handleError facade_upds split: option.splits)

lemma facade_processTask: "facade (snd (processTask ctx env t s)) = facade s"
proof (cases "mTask t")
  case FlushAndQueueSubmit
  show ?thesis
  proof (cases "getNextSubmitFence env")
    case None then show ?thesis using FlushAndQueueSubmit
      by (simp add: processTask_def processFlushAndQueueSubmit_def Let_def facade_handleError)
  next
    case (Some f)
    obtain r1 s1 where sf: "submitFrame ctx env f (mGarbage t) (mSerial t) s = (r1, s1)"
      by (cases "submitFrame ctx env f (mGarbage t) (mSerial t) s") auto
    have "facade s1 = facade s" using facade_submitFrame[of ctx env f "mGarbage t" "mSerial t" s] sf by simp
    then show ?thesis using FlushAndQueueSubmit Some
      by (cases r1) (simp_all add: processTask_def processFlushAndQueueSubmit_def Let_def facade_handleError sf facade_allocateAndBegin)
  qed
next
  case OneOffQueueSubmit
  obtain r1 s1 where q: "queueSubmit ctx env (mOneOffFence t) s = (r1, s1)" by (cases "queueSubmit ctx env (mOneOffFence t) s") auto
  have "facade s1 = facade s" using facade_queueSubmit[of ctx env "mOneOffFence t" s] q by simp
  then show ?thesis using OneOffQueueSubmit
    by (cases r1) (simp_all add: processTask_def processOneOffQueueSubmit_def q lockAndCheckCompletedCommands_def facade_checkCompleted)
next
  case Exit
  obtain r1 s1 where q: "finishToSerial ctx env \<infinity> s = (r1, s1)" by (cases "finishToSerial ctx env \<infinity> s") auto
  have "facade s1 = facade s" using facade_finishToSerial[of ctx env \<infinity> s] q by simp
  then show ?thesis using Exit
    by (cases r1) (simp_all add: processTask_def processExit_def q facade_upds)
next
  case Present
  then show ?thesis
    by (simp add: processTask_def processPresent_def present_def Let_def facade_handleError facade_upds)
qed (simp_all add: processTask_def facade_finishToSerial facade_emit lockAndCheckCompletedCommands_def facade_checkCompleted)

section \<open>The serial variables\<close>

lemma serialInv_facade: "facade s' = facade s \<Longrightarrow> serialInv s' = serialInv s"
  by (simp add: serialInv_def facade_def)

lemma serialInv_new: "serialInv (newCommandProcessor async)"
  by (simp add: newCommandProcessor_def generate_def serialInv_def zero_enat_def one_enat_def)

lemma facade_initTaskProcessor: "facade (snd (initTaskProcessor ctx env s)) = facade s"
  by (simp add: initTaskProcessor_def facade_allocateAndBegin facade_emit)

lemma assignSerial_inv: "serialInv s \<Longrightarrow> serialInv (snd (assignSerial t s))"
  by (auto simp: assignSerial_def serialInv_def generate_def emit_def Let_def)

lemma serialInv_queueCommand: "serialInv s \<Longrightarrow> serialInv (snd (queueCommand ctx env t s))"
proof -
  assume a: "serialInv s"
  obtain t1 s1 where as: "assignSerial t s = (t1, s1)" by (cases "assignSerial t s") auto
  have i1: "serialInv s1" using assignSerial_inv[OF a, of t] as by simp
  show ?thesis
    using i1 serialInv_facade[OF facade_processTask, of ctx env t1 s1]
    by (simp add: queueCommand_def as serialInv_def)
qed

lemma serialInv_workerStep: "serialInv s \<Longrightarrow> serialInv (workerStep env s)"
proof -
  assume a: "serialInv s"
  have u: "\<And>x b. serialInv (x\<lparr>workerInitialized := b\<rparr>) = serialInv x"
      "\<And>x b. serialInv (x\<lparr>workerExited := b\<rparr>) = serialInv x"
      "\<And>x b. serialInv (x\<lparr>mTasks := b\<rparr>) = serialInv x"
    by (simp_all add: serialInv_def)
  show ?thesis
  proof (cases "workerExited s")
    case True then show ?thesis using a by (simp add: workerStep_def)
  next
    case ne: False
    show ?thesis
    proof (cases "workerInitialized s")
      case False
      obtain r s1 where q: "initTaskProcessor ThisProcessor env s = (r, s1)"
        by (cases "initTaskProcessor ThisProcessor env s") auto
      have "serialInv s1" using serialInv_facade[OF facade_initTaskProcessor, of ThisProcessor env s] q a by simp
      then show ?thesis using ne False by (cases r) (simp_all add: workerStep_def q u)
    next
      case True
      show ?thesis
      proof (cases "mTasks s")
        case Nil then show ?thesis using a ne True by (simp add: workerStep_def)
      next
        case (Cons t ts)
        obtain r s1 where q: "processTask ThisProcessor env t (s\<lparr>mTasks := ts\<rparr>) = (r, s1)"
          by (cases "processTask ThisProcessor env t (s\<lparr>mTasks := ts\<rparr>)") auto
        have "serialInv s1"
          using serialInv_facade[OF facade_processTask, of ThisProcessor env t "s\<lparr>mTasks := ts\<rparr>"] q a
          by (simp add: u)
        then show ?thesis using ne True Cons by (cases r) (simp_all add: workerStep_def q u)
      qed
    qed
  qed
qed

lemma serialInv_step: "serialInv s \<Longrightarrow> serialInv (step e s)"
proof (cases e)
  case (QueueCommand c env t)
  assume "serialInv s" then show ?thesis using QueueCommand by (simp add: serialInv_queueCommand)
next
  case (WorkerStep env)
  assume "serialInv s" then show ?thesis using WorkerStep by (simp add: serialInv_workerStep)
next
  case (InitTaskProcessor c env)
  assume "serialInv s" then show ?thesis using InitTaskProcessor
    by (simp add: serialInv_facade[OF facade_initTaskProcessor])
next
  case (SetCommandPool p)
  assume "serialInv s" then show ?thesis using SetCommandPool by (simp add: serialInv_def)
next
  case (HandleDeviceLost env)
  assume "serialInv s" then show ?thesis using HandleDeviceLost
    by (simp add: serialInv_facade[OF facade_handleDeviceLost])
next
  case GetAndClearPendingError
  assume "serialInv s" then show ?thesis using GetAndClearPendingError
    by (simp add: getAndClearPendingError_def serialInv_def split: list.splits)
next
  case (GetLastAndClearPresentResult sc)
  assume "serialInv s" then show ?thesis using GetLastAndClearPresentResult
    by (auto simp: getLastAndClearPresentResult_def serialInv_def split: option.splits)
qed

lemma serialInv_run: "serialInv s \<Longrightarrow> serialInv (run es s)"
  by (induction es arbitrary: s) (simp_all add: serialInv_step)

lemma queueCommand_facade:
  "facade (snd (queueCommand ctx env t s)) =
     (let s1 = snd (assignSerial t s) in
      if asynchronousCommandProcessing s then facade (s1\<lparr>mTasks := mTasks s1 @ [fst (assignSerial t s)]\<rparr>)
      else facade s1)"
proof -
  obtain t1 s1 where as: "assignSerial t s = (t1, s1)" by (cases "assignSerial t s") auto
  have "asynchronousCommandProcessing s1 = asynchronousCommandProcessing s"
    using as by (auto simp: assignSerial_def generate_def emit_def Let_def split: if_splits)
  then show ?thesis by (simp add: queueCommand_def as facade_processTask)
qed

section \<open>Errors and present results\<close>

lemma drainErrors_all: "mErrors s = es \<Longrightarrow> drainErrors (length es) s = (es, s\<lparr>mErrors := []\<rparr>)"
proof (induction es arbitrary: s)
  case Nil then show ?case by simp
next
  case (Cons e es)
  have "mErrors (s\<lparr>mErrors := es\<rparr>) = es" by simp
  from Cons.IH[OF this] show ?case using Cons.prems
    by (simp add: getAndClearPendingError_def)
qed

lemma mErrors_deviceLostBatches: "mErrors (deviceLostBatches env bs s) = mErrors s"
  by (induction bs arbitrary: s) (simp_all add: batchDestroy_def emit_def)

lemma mErrors_handleError_this:
  "mErrors (handleError ThisProcessor env r s) = mErrors s @ [mkError r]"
  by (simp add: handleError_def Let_def handleDeviceLost_def mErrors_deviceLostBatches)

lemma mErrors_present: "mErrors (snd (present env sc s)) = mErrors s"
  by (simp add: present_def Let_def emit_def)

section \<open>The completion sweep\<close>




lemma lists_onCompletedSerial:
  "mInFlightCommands (onCompletedSerial sr s) = mInFlightCommands s"
  "mGarbageQueue (onCompletedSerial sr s) = mGarbageQueue s"
  by (simp_all add: onCompletedSerial_def emit_def)








section \<open>Evaluation of the examples\<close>

lemmas model_defs = newCommandProcessor_def generate_def queueCommand_def assignSerial_def processTask_def
  processFlushAndQueueSubmit_def submitFrame_def queueSubmit_def releaseToCommandBatch_def
  checkCompletedCommandsNoLock_def lockAndCheckCompletedCommands_def finishToSerial_def allocateAndBegin_def
  initTaskProcessor_def emit_def onCompletedSerial_def getLastCompletedQueueSerial_def handleError_def
  batchDestroy_def handleDeviceLost_def throttle_def kInFlightCommandsLimit_def envReady_def envBusy_def mkTask_def
  VK_SUCCESS_def VK_NOT_READY_def VK_ERROR_DEVICE_LOST_def Let_def

lemma twoInFlight_lists:
  "mInFlightCommands twoInFlight =
     [\<lparr>primaryCommands = Some 9, commandPool = Some 5, fence = 1, serial = 2\<rparr>,
      \<lparr>primaryCommands = Some 9, commandPool = Some 8, fence = 2, serial = 3\<rparr>]"
  "mGarbageQueue twoInFlight = [\<lparr>getGarbage = [40], getSerial = 2\<rparr>, \<lparr>getGarbage = [41], getSerial = 3\<rparr>]"
  "mLastCompletedQueueSerial twoInFlight = 0"
  by (simp_all add: twoInFlight_def envFence_def flushWith_def model_defs one_enat_def zero_enat_def numeral_eq_enat)

section \<open>The scan of finishToSerial\<close>






section \<open>The in-flight list only loses batches at its head\<close>

lemma inflight_deviceLostBatches:
  "mInFlightCommands (deviceLostBatches env bs s) = mInFlightCommands s"
  by (induction bs arbitrary: s) (simp_all add: batchDestroy_def emit_def)

lemma inflight_handleError:
  "mInFlightCommands (handleError ctx env r s) = mInFlightCommands s \<or>
   mInFlightCommands (handleError ctx env r s) = []"
  by (cases ctx) (simp_all add: handleError_def handleDeviceLost_def emit_def Let_def)

lemma suffix_handleError: "suffix (mInFlightCommands (handleError ctx env r s)) (mInFlightCommands s)"
  using inflight_handleError[of ctx env r s] by auto


lemma suffix_sweepBatches:
  "suffix (mInFlightCommands (snd (snd (sweepBatches ctx env st bs n s)))) (mInFlightCommands s)"
proof (induction bs arbitrary: n s)
  case Nil then show ?case by simp
next
  case (Cons b bs)
  let ?s3 = "emit [PrimaryReleased (primaryCommands b) (serial b)]
                 (emit [FenceRecycled (fence b) (serial b), BatchPoolDestroyed (commandPool b) (serial b)]
                    (onCompletedSerial (serial b) s))"
  have l: "mInFlightCommands ?s3 = mInFlightCommands s"
    "mInFlightCommands (emit [FenceRecycled (fence b) (serial b), BatchPoolDestroyed (commandPool b) (serial b)]
                    (onCompletedSerial (serial b) s)) = mInFlightCommands s"
    by (simp_all add: emit_def lists_onCompletedSerial)
  show ?case using Cons.IH[of "Suc n" ?s3] suffix_handleError[of ctx env "st (fence b)" s]
    by (simp add: Let_def l)
qed


lemma suffix_checkCompleted:
  "suffix (mInFlightCommands (snd (checkCompletedCommandsNoLock ctx env st s))) (mInFlightCommands s)"
proof -
  obtain r k s1 where sw: "sweepBatches ctx env st (mInFlightCommands s) 0 s = (r, k, s1)"
    by (cases "sweepBatches ctx env st (mInFlightCommands s) 0 s") auto
  have s1: "suffix (mInFlightCommands s1) (mInFlightCommands s)"
    using suffix_sweepBatches[of ctx env st "mInFlightCommands s" 0 s] by (simp add: sw)
  have d: "suffix (drop k (mInFlightCommands s1)) (mInFlightCommands s)"
    using suffix_order.trans[OF suffix_drop s1] .
  show ?thesis
    by (cases r) (auto simp: checkCompletedCommandsNoLock_def sw Let_def emit_def s1 d split: prod.splits)
qed

lemma finishToSerial_unfold:
  "mInFlightCommands s \<noteq> [] \<Longrightarrow>
   f = fence (mInFlightCommands s ! batchIndex sr (mInFlightCommands s)) \<Longrightarrow>
   finishToSerial ctx env sr s =
     (if waitFence env f \<noteq> VK_SUCCESS
      then (Stop, handleError ctx env (waitFence env f) (emit [FenceWaited f (waitFence env f)] s))
      else checkCompletedCommandsNoLock ctx env (getStatusAfterWait env) (emit [FenceWaited f (waitFence env f)] s))"
  by (simp add: finishToSerial_def Let_def lockAndCheckCompletedCommands_def)

lemma suffix_finishToSerial:
  "suffix (mInFlightCommands (snd (finishToSerial ctx env sr s))) (mInFlightCommands s)"
proof (cases "mInFlightCommands s = []")
  case True then show ?thesis by (simp add: finishToSerial_def)
next
  case False
  define f where "f = fence (mInFlightCommands s ! batchIndex sr (mInFlightCommands s))"
  define s1 where "s1 = emit [FenceWaited f (waitFence env f)] s"
  have e: "mInFlightCommands s1 = mInFlightCommands s" by (simp add: s1_def emit_def)
  show ?thesis
    unfolding finishToSerial_unfold[OF False f_def] s1_def[symmetric]
    using suffix_checkCompleted[of ctx env "getStatusAfterWait env" s1]
      suffix_handleError[of ctx env "waitFence env f" s1]
    by (simp add: e)
qed

lemma suffix_queueSubmit:
  "suffix (mInFlightCommands (snd (queueSubmit ctx env f s))) (mInFlightCommands s)"
  using suffix_handleError[of ctx env "vkQueueSubmit env" "emit [QueueSubmitted f (vkQueueSubmit env)] s"]
  by (simp add: queueSubmit_def Let_def emit_def)

lemma queueSubmit_Continue:
  "fst (queueSubmit ctx env f s) = Continue \<Longrightarrow>
     snd (queueSubmit ctx env f s) = emit [QueueSubmitted f VK_SUCCESS] s"
  by (simp add: queueSubmit_def Let_def split: if_splits)

lemma suffix_releaseToCommandBatch:
  "suffix (mInFlightCommands (snd (snd (releaseToCommandBatch ctx env b s)))) (mInFlightCommands s)"
  using suffix_handleError[of ctx env "commandPoolInit env" "s\<lparr>mPrimaryCommandBuffer := None, mCommandPool := None\<rparr>"]
  by (simp add: releaseToCommandBatch_def Let_def)

lemma releaseToCommandBatch_Continue:
  "fst (releaseToCommandBatch ctx env b s) = Continue \<Longrightarrow>
     mInFlightCommands (snd (snd (releaseToCommandBatch ctx env b s))) = mInFlightCommands s \<and>
     fence (fst (snd (releaseToCommandBatch ctx env b s))) = fence b \<and>
     serial (fst (snd (releaseToCommandBatch ctx env b s))) = serial b"
  by (simp add: releaseToCommandBatch_def Let_def split: if_splits)

lemma releaseToCommandBatch_serial:
  "serial (fst (snd (releaseToCommandBatch ctx env b s))) = serial b"
  by (simp add: releaseToCommandBatch_def Let_def)

lemma suffix_allocateAndBegin:
  "suffix (mInFlightCommands (snd (allocateAndBegin ctx env s))) (mInFlightCommands s)"
proof (cases "allocatePrimary env")
  case None then show ?thesis by (simp add: allocateAndBegin_def)
next
  case (Some p)
  show ?thesis
    using suffix_handleError[of ctx env "primaryBegin env" "s\<lparr>mPrimaryCommandBuffer := Some p\<rparr>"]
    by (simp add: allocateAndBegin_def Some Let_def)
qed

section \<open>The shape of submitFrame\<close>

lemma submitFrame_shape:
  "((vkQueueSubmit env \<noteq> VK_SUCCESS \<or> \<not> cleanupGarbageOk env \<or> commandPoolInit env \<noteq> VK_SUCCESS) \<and>
    fst (submitFrame ctx env f g sr s) = Stop \<and>
    suffix (mInFlightCommands (snd (submitFrame ctx env f g sr s))) (mInFlightCommands s)) \<or>
   (\<exists>b s4. serial b = sr \<and> fence b = f \<and> mInFlightCommands s4 = mInFlightCommands s @ [b] \<and>
      submitFrame ctx env f g sr s =
        (case checkCompletedCommandsNoLock ctx env (getStatus env) s4 of
           (Stop, s5) \<Rightarrow> (Stop, s5)
         | (Continue, s5) \<Rightarrow> throttle ctx env s5))"
proof -
  let ?b = "\<lparr>primaryCommands = None, commandPool = None, fence = f, serial = sr\<rparr>"
  obtain r1 s1 where q: "queueSubmit ctx env (Some f) s = (r1, s1)" by (cases "queueSubmit ctx env (Some f) s") auto
  have x1: "suffix (mInFlightCommands s1) (mInFlightCommands s)"
    using suffix_queueSubmit[of ctx env "Some f" s] q by simp
  have bd: "\<And>b x. mInFlightCommands (batchDestroy b x) = mInFlightCommands x"
    by (simp add: batchDestroy_def emit_def)
  show ?thesis
  proof (cases r1)
    case Stop
    have "vkQueueSubmit env \<noteq> VK_SUCCESS \<or> \<not> cleanupGarbageOk env"
      using q Stop by (auto simp: queueSubmit_def Let_def split: if_splits)
    then show ?thesis using Stop by (auto simp: submitFrame_def q bd x1)
  next
    case Continue
    have e1: "mInFlightCommands s1 = mInFlightCommands s"
      using queueSubmit_Continue[of ctx env "Some f" s] q Continue by (simp add: emit_def)
    define s2 where "s2 = (if g \<noteq> [] then s1\<lparr>mGarbageQueue := mGarbageQueue s1 @ [\<lparr>getGarbage = g, getSerial = sr\<rparr>]\<rparr> else s1)"
    have e2: "mInFlightCommands s2 = mInFlightCommands s" by (simp add: s2_def e1)
    obtain r3 b3 s3 where rl: "releaseToCommandBatch ctx env ?b s2 = (r3, b3, s3)"
      by (cases "releaseToCommandBatch ctx env ?b s2") auto
    have x3: "suffix (mInFlightCommands s3) (mInFlightCommands s)"
      using suffix_releaseToCommandBatch[of ctx env ?b s2] rl e2 by simp
    show ?thesis
    proof (cases r3)
      case Stop
      have "commandPoolInit env \<noteq> VK_SUCCESS"
        using rl Stop by (auto simp: releaseToCommandBatch_def Let_def split: if_splits)
      then show ?thesis using Continue Stop
        by (simp add: submitFrame_def q Let_def rl s2_def[symmetric] bd x3)
    next
      case c3: Continue
      have e3: "mInFlightCommands s3 = mInFlightCommands s" "fence b3 = f" "serial b3 = sr"
        using releaseToCommandBatch_Continue[of ctx env ?b s2] rl c3 e2 by simp_all
      define s4 where "s4 = s3\<lparr>mInFlightCommands := mInFlightCommands s3 @ [b3]\<rparr>"
      have e4: "mInFlightCommands s4 = mInFlightCommands s @ [b3]" by (simp add: s4_def e3)
      have "submitFrame ctx env f g sr s =
        (case checkCompletedCommandsNoLock ctx env (getStatus env) s4 of
           (Stop, s5) \<Rightarrow> (Stop, s5)
         | (Continue, s5) \<Rightarrow> throttle ctx env s5)"
        using Continue c3
        by (simp add: submitFrame_def q Let_def rl s2_def[symmetric] s4_def[symmetric])
      then show ?thesis using e3 e4 by blast
    qed
  qed
qed

lemma suffix_throttle: "suffix (mInFlightCommands (snd (throttle ctx env s))) (mInFlightCommands s)"
  by (simp add: throttle_def Let_def suffix_finishToSerial)

lemma suffix_submitFrame:
  "suffix (mInFlightCommands (snd (submitFrame ctx env f g sr s))) (mInFlightCommands s) \<or>
   (\<exists>b. serial b = sr \<and> suffix (mInFlightCommands (snd (submitFrame ctx env f g sr s))) (mInFlightCommands s @ [b]))"
proof -
  from submitFrame_shape[of env ctx f g sr s] show ?thesis
  proof
    assume "(vkQueueSubmit env \<noteq> VK_SUCCESS \<or> \<not> cleanupGarbageOk env \<or> commandPoolInit env \<noteq> VK_SUCCESS) \<and>
      fst (submitFrame ctx env f g sr s) = Stop \<and>
      suffix (mInFlightCommands (snd (submitFrame ctx env f g sr s))) (mInFlightCommands s)"
    then show ?thesis by simp
  next
    assume "\<exists>b s4. serial b = sr \<and> fence b = f \<and> mInFlightCommands s4 = mInFlightCommands s @ [b] \<and>
      submitFrame ctx env f g sr s =
        (case checkCompletedCommandsNoLock ctx env (getStatus env) s4 of
           (Stop, s5) \<Rightarrow> (Stop, s5)
         | (Continue, s5) \<Rightarrow> throttle ctx env s5)"
    then obtain b s4 where b: "serial b = sr" "mInFlightCommands s4 = mInFlightCommands s @ [b]"
      and sf: "submitFrame ctx env f g sr s =
        (case checkCompletedCommandsNoLock ctx env (getStatus env) s4 of
           (Stop, s5) \<Rightarrow> (Stop, s5)
         | (Continue, s5) \<Rightarrow> throttle ctx env s5)" by blast
    obtain r5 s5 where ck: "checkCompletedCommandsNoLock ctx env (getStatus env) s4 = (r5, s5)"
      by (cases "checkCompletedCommandsNoLock ctx env (getStatus env) s4") auto
    have x5: "suffix (mInFlightCommands s5) (mInFlightCommands s @ [b])"
      using suffix_checkCompleted[of ctx env "getStatus env" s4] ck b by simp
    have "suffix (mInFlightCommands (snd (submitFrame ctx env f g sr s))) (mInFlightCommands s @ [b])"
      using x5 suffix_order.trans[OF suffix_throttle[of ctx env s5] x5]
      by (cases r5) (simp_all add: sf ck)
    then show ?thesis using b by blast
  qed
qed



lemma suffix_length_eq: "suffix ys xs \<Longrightarrow> length xs \<le> length ys \<Longrightarrow> ys = xs"
  by (auto simp: suffix_def)




section \<open>Submissions while the GPU is busy\<close>





lemma processFlush_unfold:
  "mTask task = FlushAndQueueSubmit \<Longrightarrow> primaryEnd env = VK_SUCCESS \<Longrightarrow> getNextSubmitFence env = Some f \<Longrightarrow>
   processTask ctx env task s =
     (case submitFrame ctx env f (mGarbage task) (mSerial task) s of
        (Stop, s1) \<Rightarrow> (Stop, s1)
      | (Continue, s1) \<Rightarrow> allocateAndBegin ctx env s1)"
  by (simp add: processTask_def processFlushAndQueueSubmit_def)









section \<open>The throttle\<close>



section \<open>The order of serials\<close>

lemma ordered_suffix: "ordered c bs qs \<Longrightarrow> suffix bs' bs \<Longrightarrow> ordered c bs' qs"
  by (auto simp: ordered_def suffix_def sorted_wrt_append)

lemma ordered_pop: "ordered c bs (q # qs) \<Longrightarrow> serial b = q \<Longrightarrow> ordered c (bs @ [b]) qs"
  by (simp add: ordered_def)

lemma ordered_skip: "ordered c bs (q # qs) \<Longrightarrow> ordered c bs qs"
  by (auto simp: ordered_def sorted_wrt_append)

lemma ordered_push: "ordered c bs qs \<Longrightarrow> c < c' \<Longrightarrow> ordered c' bs (qs @ [c])"
proof -
  assume a: "ordered c bs qs" and c: "c < c'"
  have "\<forall>x \<in> set (map serial bs @ qs). x < c'"
    using a c unfolding ordered_def by (meson order.strict_trans)
  then show ?thesis using a c by (auto simp: ordered_def sorted_wrt_append)
qed

lemma ordered_mono: "ordered c bs qs \<Longrightarrow> c \<le> c' \<Longrightarrow> ordered c' bs qs"
  unfolding ordered_def by (meson order.strict_trans2)

lemma suffix_processTask:
  "suffix (mInFlightCommands (snd (processTask ctx env t s))) (mInFlightCommands s) \<or>
   (mTask t = FlushAndQueueSubmit \<and>
    (\<exists>b. serial b = mSerial t \<and>
         suffix (mInFlightCommands (snd (processTask ctx env t s))) (mInFlightCommands s @ [b])))"
proof (cases "mTask t")
  case FlushAndQueueSubmit
  show ?thesis
  proof (cases "primaryEnd env = VK_SUCCESS")
    case False
    then show ?thesis using FlushAndQueueSubmit suffix_handleError[of ctx env "primaryEnd env" s]
      by (simp add: processTask_def processFlushAndQueueSubmit_def)
  next
    case e: True
    show ?thesis
    proof (cases "getNextSubmitFence env")
      case None then show ?thesis using FlushAndQueueSubmit e
        by (simp add: processTask_def processFlushAndQueueSubmit_def)
    next
      case (Some f)
      let ?sf = "submitFrame ctx env f (mGarbage t) (mSerial t) s"
      obtain r1 s1 where sf: "?sf = (r1, s1)" by (cases ?sf) auto
      have x: "suffix (mInFlightCommands (snd (processTask ctx env t s))) (mInFlightCommands s1)"
        unfolding processFlush_unfold[OF FlushAndQueueSubmit e Some] sf
        using suffix_allocateAndBegin[of ctx env s1] by (cases r1) simp_all
      from suffix_submitFrame[of ctx env f "mGarbage t" "mSerial t" s]
      show ?thesis
      proof
        assume "suffix (mInFlightCommands (snd ?sf)) (mInFlightCommands s)"
        then show ?thesis using suffix_order.trans[OF x] sf by simp
      next
        assume "\<exists>b. serial b = mSerial t \<and> suffix (mInFlightCommands (snd ?sf)) (mInFlightCommands s @ [b])"
        then obtain b where "serial b = mSerial t" "suffix (mInFlightCommands s1) (mInFlightCommands s @ [b])"
          using sf by auto
        then show ?thesis using suffix_order.trans[OF x] FlushAndQueueSubmit by blast
      qed
    qed
  qed
next
  case OneOffQueueSubmit
  obtain r1 s1 where q: "queueSubmit ctx env (mOneOffFence t) s = (r1, s1)"
    by (cases "queueSubmit ctx env (mOneOffFence t) s") auto
  have x1: "suffix (mInFlightCommands s1) (mInFlightCommands s)"
    using suffix_queueSubmit[of ctx env "mOneOffFence t" s] q by simp
  show ?thesis using OneOffQueueSubmit x1
      suffix_order.trans[OF suffix_checkCompleted[of ctx env "getStatus env" s1] x1]
    by (cases r1) (simp_all add: processTask_def processOneOffQueueSubmit_def q lockAndCheckCompletedCommands_def)
next
  case Exit
  obtain r1 s1 where q: "finishToSerial ctx env \<infinity> s = (r1, s1)" by (cases "finishToSerial ctx env \<infinity> s") auto
  have "suffix (mInFlightCommands s1) (mInFlightCommands s)"
    using suffix_finishToSerial[of ctx env \<infinity> s] q by simp
  then show ?thesis using Exit
    by (cases r1) (simp_all add: processTask_def processExit_def q emit_def)
next
  case Present
  then show ?thesis using suffix_handleError[of ctx env "vkQueuePresentKHR env" "snd (present env (mSwapchain t) s)"]
    by (auto simp: processTask_def processPresent_def present_def Let_def emit_def)
next
  case FinishToSerial
  then show ?thesis by (simp add: processTask_def suffix_finishToSerial)
next
  case CheckCompletedCommands
  then show ?thesis by (simp add: processTask_def lockAndCheckCompletedCommands_def suffix_checkCompleted)
qed (simp_all add: processTask_def emit_def)

lemma ordered_processTask:
  assumes "ordered c (mInFlightCommands s) (if mTask t = FlushAndQueueSubmit then mSerial t # qs else qs)"
  shows "ordered c (mInFlightCommands (snd (processTask ctx env t s))) qs"
proof -
  have base: "ordered c (mInFlightCommands s) qs"
    using assms ordered_skip by (cases "mTask t = FlushAndQueueSubmit") auto
  from suffix_processTask[of ctx env t s] show ?thesis
  proof
    assume "suffix (mInFlightCommands (snd (processTask ctx env t s))) (mInFlightCommands s)"
    then show ?thesis using ordered_suffix[OF base] by simp
  next
    assume "mTask t = FlushAndQueueSubmit \<and>
      (\<exists>b. serial b = mSerial t \<and>
         suffix (mInFlightCommands (snd (processTask ctx env t s))) (mInFlightCommands s @ [b]))"
    then obtain b where t: "mTask t = FlushAndQueueSubmit" and b: "serial b = mSerial t"
      and x: "suffix (mInFlightCommands (snd (processTask ctx env t s))) (mInFlightCommands s @ [b])" by blast
    have "ordered c (mInFlightCommands s @ [b]) qs" using assms t ordered_pop[OF _ b] by simp
    then show ?thesis using ordered_suffix x by blast
  qed
qed

lemma orderInv_cong:
  "facade s' = facade s \<Longrightarrow> suffix (mInFlightCommands s') (mInFlightCommands s) \<Longrightarrow>
     orderInv s \<Longrightarrow> orderInv s'"
  by (auto simp: orderInv_def queuedSerials_def facade_def intro: ordered_suffix)

lemma workerStep_cases:
  "workerStep env s = s \<or>
   (\<exists>r s1. initTaskProcessor ThisProcessor env s = (r, s1) \<and>
      workerStep env s = (if r = Continue then s1\<lparr>workerInitialized := True\<rparr> else s1)) \<or>
   (\<exists>t ts r s1. mTasks s = t # ts \<and> processTask ThisProcessor env t (s\<lparr>mTasks := ts\<rparr>) = (r, s1) \<and>
      workerStep env s = (if r = Stop then s1\<lparr>workerInitialized := False\<rparr>
                          else if mTask t = Exit then s1\<lparr>workerExited := True\<rparr> else s1))"
proof (cases "workerExited s")
  case True then show ?thesis by (simp add: workerStep_def)
next
  case ne: False
  show ?thesis
  proof (cases "workerInitialized s")
    case False
    obtain r s1 where i: "initTaskProcessor ThisProcessor env s = (r, s1)"
      by (cases "initTaskProcessor ThisProcessor env s") auto
    have "workerStep env s = (if r = Continue then s1\<lparr>workerInitialized := True\<rparr> else s1)"
      using ne False by (cases r) (simp_all add: workerStep_def i)
    then show ?thesis using i by blast
  next
    case True
    show ?thesis
    proof (cases "mTasks s")
      case Nil then show ?thesis using ne True by (simp add: workerStep_def)
    next
      case (Cons t ts)
      obtain r s1 where p: "processTask ThisProcessor env t (s\<lparr>mTasks := ts\<rparr>) = (r, s1)"
        by (cases "processTask ThisProcessor env t (s\<lparr>mTasks := ts\<rparr>)") auto
      have "workerStep env s = (if r = Stop then s1\<lparr>workerInitialized := False\<rparr>
                          else if mTask t = Exit then s1\<lparr>workerExited := True\<rparr> else s1)"
        using ne True Cons by (cases r) (simp_all add: workerStep_def p)
      then show ?thesis using Cons p by blast
    qed
  qed
qed

lemma suffix_initTaskProcessor:
  "suffix (mInFlightCommands (snd (initTaskProcessor ctx env s))) (mInFlightCommands s)"
  using suffix_allocateAndBegin[of ctx env "emit [PrimaryPoolInitialized] s"]
  by (simp add: initTaskProcessor_def emit_def)

lemma orderInv_flags:
  "orderInv (s\<lparr>workerInitialized := b\<rparr>) = orderInv s"
  "orderInv (s\<lparr>workerExited := b\<rparr>) = orderInv s"
  by (simp_all add: orderInv_def queuedSerials_def)

lemma orderInv_workerStep:
  assumes "orderInv s" and "asynchronousCommandProcessing s"
  shows "orderInv (workerStep env s)"
proof -
  from workerStep_cases[of env s] consider
    (same) "workerStep env s = s"
  | (init) r s1 where "initTaskProcessor ThisProcessor env s = (r, s1)"
      "workerStep env s = (if r = Continue then s1\<lparr>workerInitialized := True\<rparr> else s1)"
  | (task) t ts r s1 where "mTasks s = t # ts" "processTask ThisProcessor env t (s\<lparr>mTasks := ts\<rparr>) = (r, s1)"
      "workerStep env s = (if r = Stop then s1\<lparr>workerInitialized := False\<rparr>
                          else if mTask t = Exit then s1\<lparr>workerExited := True\<rparr> else s1)"
    by blast
  then show ?thesis
  proof cases
    case same then show ?thesis using assms by simp
  next
    case init
    have "orderInv s1"
      using orderInv_cong[OF facade_initTaskProcessor suffix_initTaskProcessor assms(1), of ThisProcessor env] init(1)
      by simp
    then show ?thesis using init(2) by (simp add: orderInv_flags)
  next
    case task
    let ?s0 = "s\<lparr>mTasks := ts\<rparr>"
    let ?c = "mCommandProcessorCurrentQueueSerial s"
    have q: "queuedSerials s = (if mTask t = FlushAndQueueSubmit then mSerial t # queuedSerials ?s0 else queuedSerials ?s0)"
      by (simp add: queuedSerials_def task(1))
    have "ordered ?c (mInFlightCommands ?s0)
            (if mTask t = FlushAndQueueSubmit then mSerial t # queuedSerials ?s0 else queuedSerials ?s0)"
      using assms(1) q by (simp add: orderInv_def)
    from ordered_processTask[OF this, of ThisProcessor env]
    have o: "ordered ?c (mInFlightCommands s1) (queuedSerials ?s0)" by (simp add: task(2))
    have f: "facade s1 = facade ?s0" using facade_processTask[of ThisProcessor env t ?s0] task(2) by simp
    have "orderInv s1"
      using o f assms(2) by (simp add: orderInv_def queuedSerials_def facade_def)
    then show ?thesis using task(3) by (simp add: orderInv_flags)
  qed
qed

lemma orderInv_queueCommand:
  assumes o: "orderInv s" and i: "serialInv s"
  shows "orderInv (snd (queueCommand ctx env t s))"
proof -
  let ?c = "mCommandProcessorCurrentQueueSerial s"
  obtain t1 s1 where as: "assignSerial t s = (t1, s1)" by (cases "assignSerial t s") auto
  let ?sub = "mTask t = FlushAndQueueSubmit \<or> mTask t = OneOffQueueSubmit"
  have fr: "mInFlightCommands s1 = mInFlightCommands s" "mTasks s1 = mTasks s"
    "asynchronousCommandProcessing s1 = asynchronousCommandProcessing s" "mTask t1 = mTask t"
    using as by (auto simp: assignSerial_def generate_def emit_def Let_def split: if_splits)
  have c1: "?c \<le> mCommandProcessorCurrentQueueSerial s1"
    "?sub \<Longrightarrow> ?c < mCommandProcessorCurrentQueueSerial s1 \<and> mSerial t1 = ?c"
    using as i by (auto simp: assignSerial_def generate_def emit_def Let_def serialInv_def split: if_splits)
  let ?qs = "queuedSerials s"
  have o0: "ordered ?c (mInFlightCommands s) ?qs" using o by (simp add: orderInv_def)
  have o1: "ordered (mCommandProcessorCurrentQueueSerial s1) (mInFlightCommands s1)
              (?qs @ (if mTask t1 = FlushAndQueueSubmit then [mSerial t1] else []))"
  proof (cases "mTask t = FlushAndQueueSubmit")
    case True
    then show ?thesis using ordered_push[OF o0, of "mCommandProcessorCurrentQueueSerial s1"] c1(2) fr by simp
  next
    case False
    then show ?thesis using ordered_mono[OF o0 c1(1)] fr by simp
  qed
  show ?thesis
  proof (cases "asynchronousCommandProcessing s")
    case True
    then show ?thesis using o1 fr
      by (cases "mTask t = FlushAndQueueSubmit")
         (simp_all add: queueCommand_def as orderInv_def queuedSerials_def)
  next
    case False
    then have e: "mTasks s = []" using o by (simp add: orderInv_def)
    then have qe: "?qs = []" by (simp add: queuedSerials_def)
    have "ordered (mCommandProcessorCurrentQueueSerial s1) (mInFlightCommands s1)
            (if mTask t1 = FlushAndQueueSubmit then mSerial t1 # [] else [])"
      using o1 qe by simp
    from ordered_processTask[OF this, of ctx env]
    have o2: "ordered (mCommandProcessorCurrentQueueSerial s1) (mInFlightCommands (snd (processTask ctx env t1 s1))) []" .
    have f: "facade (snd (processTask ctx env t1 s1)) = facade s1" by (rule facade_processTask)
    show ?thesis using False o2 f fr e
      by (simp add: queueCommand_def as orderInv_def queuedSerials_def facade_def)
  qed
qed

lemma orderInv_step: "orderInv s \<Longrightarrow> serialInv s \<Longrightarrow> orderInv (step e s)"
proof (cases e)
  case (QueueCommand c env t)
  assume "orderInv s" "serialInv s" then show ?thesis using QueueCommand by (simp add: orderInv_queueCommand)
next
  case (WorkerStep env)
  assume "orderInv s" "serialInv s" then show ?thesis using WorkerStep by (simp add: orderInv_workerStep)
next
  case (InitTaskProcessor c env)
  assume "orderInv s" "serialInv s" then show ?thesis using InitTaskProcessor
    by (simp add: orderInv_cong[OF facade_initTaskProcessor suffix_initTaskProcessor])
next
  case (SetCommandPool p)
  assume "orderInv s" "serialInv s" then show ?thesis using SetCommandPool
    by (simp add: orderInv_def queuedSerials_def)
next
  case (HandleDeviceLost env)
  assume "orderInv s" "serialInv s" then show ?thesis using HandleDeviceLost
    using orderInv_cong[OF facade_handleDeviceLost, of env s] by (simp add: handleDeviceLost_def)
next
  case GetAndClearPendingError
  assume "orderInv s" "serialInv s" then show ?thesis using GetAndClearPendingError
    by (simp add: getAndClearPendingError_def orderInv_def queuedSerials_def split: list.splits)
next
  case (GetLastAndClearPresentResult sc)
  assume "orderInv s" "serialInv s" then show ?thesis using GetLastAndClearPresentResult
    by (auto simp: getLastAndClearPresentResult_def orderInv_def queuedSerials_def split: option.splits)
qed

lemma orderInv_run: "orderInv s \<Longrightarrow> serialInv s \<Longrightarrow> orderInv (run es s)"
  by (induction es arbitrary: s) (simp_all add: orderInv_step serialInv_step)

lemma orderInv_new: "orderInv (newCommandProcessor async)"
  by (simp add: orderInv_def ordered_def queuedSerials_def newCommandProcessor_def generate_def)

lemma lastSubmitted_step:
  assumes "serialInv s"
  shows "mCommandProcessorLastSubmittedSerial s \<le> mCommandProcessorLastSubmittedSerial (step e s)"
proof -
  have a: "\<And>x y. facade x = facade y \<Longrightarrow>
      mCommandProcessorLastSubmittedSerial x = mCommandProcessorLastSubmittedSerial y"
    by (simp add: facade_def)
  show ?thesis
  proof (cases e)
    case (QueueCommand ctx env t)
    have "mCommandProcessorLastSubmittedSerial (snd (queueCommand ctx env t s)) =
          mCommandProcessorLastSubmittedSerial (snd (assignSerial t s))"
      using queueCommand_facade[of ctx env t s] by (auto simp: facade_def Let_def split: if_splits)
    moreover have "mCommandProcessorLastSubmittedSerial s \<le> mCommandProcessorLastSubmittedSerial (snd (assignSerial t s))"
      using assms by (auto simp: assignSerial_def generate_def emit_def Let_def serialInv_def)
    ultimately show ?thesis using QueueCommand by simp
  next
    case (WorkerStep env)
    have "mCommandProcessorLastSubmittedSerial (workerStep env s) = mCommandProcessorLastSubmittedSerial s"
    proof -
      from workerStep_cases[of env s] consider
        (same) "workerStep env s = s"
      | (init) r s1 where "initTaskProcessor ThisProcessor env s = (r, s1)"
          "workerStep env s = (if r = Continue then s1\<lparr>workerInitialized := True\<rparr> else s1)"
      | (task) t ts r s1 where "mTasks s = t # ts" "processTask ThisProcessor env t (s\<lparr>mTasks := ts\<rparr>) = (r, s1)"
          "workerStep env s = (if r = Stop then s1\<lparr>workerInitialized := False\<rparr>
                          else if mTask t = Exit then s1\<lparr>workerExited := True\<rparr> else s1)"
        by blast
      then show ?thesis
      proof cases
        case same then show ?thesis by simp
      next
        case init
        then show ?thesis using a[OF facade_initTaskProcessor, of ThisProcessor env s] by simp
      next
        case task
        then show ?thesis using a[OF facade_processTask, of ThisProcessor env t "s\<lparr>mTasks := ts\<rparr>"] by simp
      qed
    qed
    then show ?thesis using WorkerStep by simp
  next
    case (InitTaskProcessor c env)
    then show ?thesis using a[OF facade_initTaskProcessor, of c env s] by simp
  next
    case (HandleDeviceLost env)
    then show ?thesis using a[OF facade_handleDeviceLost, of env s] by simp
  qed (auto simp: getAndClearPendingError_def getLastAndClearPresentResult_def split: list.splits option.splits)
qed

lemma lastSubmitted_run:
  "serialInv s \<Longrightarrow> mCommandProcessorLastSubmittedSerial s \<le> mCommandProcessorLastSubmittedSerial (run es s)"
proof (induction es arbitrary: s)
  case Nil then show ?case by simp
next
  case (Cons e es)
  have "mCommandProcessorLastSubmittedSerial (step e s) \<le> mCommandProcessorLastSubmittedSerial (run es (step e s))"
    using Cons.IH[OF serialInv_step[OF Cons.prems]] .
  then show ?case using lastSubmitted_step[OF Cons.prems, of e] by simp
qed

section \<open>Shutdown\<close>




section \<open>The task handlers do not depend on the mode\<close>



















section \<open>A handler that returns Continue does not depend on the context\<close>










section \<open>Synchronous and asynchronous mode\<close>





section \<open>Serial assignment in queueCommand\<close>

text \<open>
  C1.  In every state a run of events can reach, \<open>queueCommand\<close> with a task tagged
  \<open>FlushAndQueueSubmit\<close> or \<open>OneOffQueueSubmit\<close> gives the task the current queue serial
  of before the call, makes that serial the last submitted one, and makes the current queue
  serial the next serial of the factory, which is strictly larger; afterwards the last
  submitted serial is the current serial minus one.  With any other tag both serial
  variables are unchanged.
\<close>

theorem queueCommand_serials:
  assumes "s = run evs (newCommandProcessor async)"
  shows "(mTask task = FlushAndQueueSubmit \<or> mTask task = OneOffQueueSubmit \<longrightarrow>
            mSerial (fst (queueCommand ctx env task s)) = getCurrentQueueSerial s \<and>
            getLastSubmittedSerial (snd (queueCommand ctx env task s)) = getCurrentQueueSerial s \<and>
            getCurrentQueueSerial (snd (queueCommand ctx env task s)) = enat (mQueueSerialFactory s) \<and>
            getCurrentQueueSerial s < getCurrentQueueSerial (snd (queueCommand ctx env task s)) \<and>
            getLastSubmittedSerial (snd (queueCommand ctx env task s)) =
              getCurrentQueueSerial (snd (queueCommand ctx env task s)) - 1) \<and>
         (\<not> (mTask task = FlushAndQueueSubmit \<or> mTask task = OneOffQueueSubmit) \<longrightarrow>
            getLastSubmittedSerial (snd (queueCommand ctx env task s)) = getLastSubmittedSerial s \<and>
            getCurrentQueueSerial (snd (queueCommand ctx env task s)) = getCurrentQueueSerial s)"
proof -
  have inv: "serialInv s" using assms serialInv_run[OF serialInv_new] by simp
  then obtain n where n: "mCommandProcessorLastSubmittedSerial s = enat n"
      "mCommandProcessorCurrentQueueSerial s = enat (Suc n)" "mQueueSerialFactory s = Suc (Suc n)"
    by (auto simp: serialInv_def)
  have fst_as: "fst (queueCommand ctx env task s) = fst (assignSerial task s)"
    by (simp add: queueCommand_def split: prod.splits)
  have fc: "facade (snd (queueCommand ctx env task s)) =
     (let s1 = snd (assignSerial task s) in
      if asynchronousCommandProcessing s then facade (s1\<lparr>mTasks := mTasks s1 @ [fst (assignSerial task s)]\<rparr>)
      else facade s1)" by (rule queueCommand_facade)
  have l: "getLastSubmittedSerial (snd (queueCommand ctx env task s)) = getLastSubmittedSerial (snd (assignSerial task s))"
    and c: "getCurrentQueueSerial (snd (queueCommand ctx env task s)) = getCurrentQueueSerial (snd (assignSerial task s))"
    using fc by (auto simp: facade_def Let_def getLastSubmittedSerial_def getCurrentQueueSerial_def split: if_splits)
  show ?thesis
    unfolding l c fst_as
    by (auto simp: assignSerial_def generate_def emit_def Let_def getLastSubmittedSerial_def
          getCurrentQueueSerial_def n one_enat_def)
qed

theorem queueCommand_serials_witness:
  "mTask (mkTask FlushAndQueueSubmit) = FlushAndQueueSubmit \<and>
   getLastSubmittedSerial (snd (queueCommand CallerContext envReady (mkTask FlushAndQueueSubmit) (run [] (newCommandProcessor False))))
     = getCurrentQueueSerial (snd (queueCommand CallerContext envReady (mkTask FlushAndQueueSubmit) (run [] (newCommandProcessor False)))) - 1"
proof -
  have t: "mTask (mkTask FlushAndQueueSubmit) = FlushAndQueueSubmit" by (simp add: mkTask_def)
  show ?thesis
    using queueCommand_serials[OF refl, of "mkTask FlushAndQueueSubmit" CallerContext envReady "[]" False] t
    by blast
qed

section \<open>The error queue\<close>

text \<open>
  C10.  On an empty error queue \<open>getAndClearPendingError\<close> returns a record with code
  \<open>VK_SUCCESS\<close>, no file, no function and line 0, and leaves the state unchanged; on a
  non-empty one it returns the oldest record and removes exactly that record.  As many calls
  as there are records return the records in queue order and empty the queue, and the
  command processor's \<open>handleError\<close> appends at the end, so that order is the order in which
  the worker recorded them.
\<close>

theorem getAndClearPendingError_fifo:
  "(mErrors s = [] \<longrightarrow>
      getAndClearPendingError s = (\<lparr>mErrorCode = VK_SUCCESS, mFile = None, mFunction = None, mLine = 0\<rparr>, s)) \<and>
   (\<forall>e es. mErrors s = e # es \<longrightarrow> getAndClearPendingError s = (e, s\<lparr>mErrors := es\<rparr>)) \<and>
   drainErrors (length (mErrors s)) s = (mErrors s, s\<lparr>mErrors := []\<rparr>) \<and>
   mErrors (handleError ThisProcessor env r s) = mErrors s @ [mkError r]"
  by (simp add: getAndClearPendingError_def drainErrors_all mErrors_handleError_this)

theorem getAndClearPendingError_fifo_witness:
  "mErrors (newCommandProcessor True) = [] \<and>
   fst (getAndClearPendingError (newCommandProcessor True)) =
     \<lparr>mErrorCode = VK_SUCCESS, mFile = None, mFunction = None, mLine = 0\<rparr> \<and>
   mErrors twoErrors = [mkError VK_ERROR_OUT_OF_HOST_MEMORY, mkError VK_ERROR_DEVICE_LOST] \<and>
   getAndClearPendingError twoErrors =
     (mkError VK_ERROR_OUT_OF_HOST_MEMORY, twoErrors\<lparr>mErrors := [mkError VK_ERROR_DEVICE_LOST]\<rparr>)"
proof -
  have e0: "mErrors (newCommandProcessor True) = []"
    by (simp add: newCommandProcessor_def generate_def)
  have e2: "mErrors twoErrors = [mkError VK_ERROR_OUT_OF_HOST_MEMORY, mkError VK_ERROR_DEVICE_LOST]"
    by (simp add: twoErrors_def mErrors_handleError_this e0)
  show ?thesis
    using getAndClearPendingError_fifo[of "newCommandProcessor True" envReady 0]
      getAndClearPendingError_fifo[of twoErrors envReady 0] e0 e2
    by simp
qed

section \<open>The swapchain status map\<close>

text \<open>
  C7.  \<open>present\<close> returns the result of the present call and stores it, whatever it is,
  under the presented swapchain, touching no other entry.  When the map has an entry for a
  swapchain, \<open>getLastAndClearPresentResult\<close> returns it and erases it, touching no other
  entry; a second call then finds no entry (it waits), until a later \<open>present\<close> of that
  swapchain stores one again.
\<close>

theorem present_status_map:
  "fst (present env sc s) = vkQueuePresentKHR env \<and>
   mSwapchainStatus (snd (present env sc s)) sc = Some (vkQueuePresentKHR env) \<and>
   (\<forall>other. other \<noteq> sc \<longrightarrow> mSwapchainStatus (snd (present env sc s)) other = mSwapchainStatus s other) \<and>
   (\<forall>r. mSwapchainStatus s sc = Some r \<longrightarrow>
      (\<exists>s'. getLastAndClearPresentResult sc s = Some (r, s') \<and>
            mSwapchainStatus s' sc = None \<and>
            getLastAndClearPresentResult sc s' = None \<and>
            (\<forall>other. other \<noteq> sc \<longrightarrow> mSwapchainStatus s' other = mSwapchainStatus s other) \<and>
            mSwapchainStatus (snd (present env sc s')) sc = Some (vkQueuePresentKHR env))) \<and>
   (mSwapchainStatus s sc = None \<longrightarrow> getLastAndClearPresentResult sc s = None)"
  by (simp add: present_def getLastAndClearPresentResult_def Let_def emit_def)

theorem present_status_map_witness:
  "(1::nat) \<noteq> 2 \<and> mSwapchainStatus presented 1 = Some VK_SUBOPTIMAL_KHR \<and>
   mSwapchainStatus presented 2 = Some VK_SUCCESS \<and>
   (\<exists>s'. getLastAndClearPresentResult 1 presented = Some (VK_SUBOPTIMAL_KHR, s') \<and>
         getLastAndClearPresentResult 1 s' = None \<and>
         mSwapchainStatus s' 2 = Some VK_SUCCESS)"
proof -
  have a: "mSwapchainStatus presented 1 = Some VK_SUBOPTIMAL_KHR"
    by (simp add: presented_def present_def Let_def emit_def)
  have b: "mSwapchainStatus presented 2 = Some VK_SUCCESS"
    by (simp add: presented_def present_def Let_def emit_def envReady_def)
  show ?thesis
    using present_status_map[of envReady 1 presented] a b by auto
qed

section \<open>Errors of a present\<close>




section \<open>The completion sweep\<close>




section \<open>finishToSerial\<close>




section \<open>The throttle of submitFrame\<close>




section \<open>Serial monotonicity\<close>

text \<open>
  C2.  In every state a run of events can reach from the constructor, in either mode, the
  serials of the in-flight list are strictly increasing from head to tail and below the
  current queue serial, and every submission still waiting in the task queue carries a
  serial above all of them: a batch that \<open>submitFrame\<close> appends has a serial larger than
  every serial in the list.  Across any further run of events the value of
  \<open>getLastSubmittedSerial\<close> does not decrease.
\<close>

theorem inflight_serials_increasing:
  assumes "s = run evs (newCommandProcessor async)"
  shows "sorted_wrt (<) (map serial (mInFlightCommands s)) \<and>
     (\<forall>b \<in> set (mInFlightCommands s). serial b < getCurrentQueueSerial s) \<and>
     (\<forall>b \<in> set (mInFlightCommands s). \<forall>q \<in> set (queuedSerials s). serial b < q) \<and>
     getLastSubmittedSerial s \<le> getLastSubmittedSerial (run later s)"
proof -
  have i: "serialInv s" using assms serialInv_run[OF serialInv_new] by simp
  have "orderInv s" using assms orderInv_run[OF orderInv_new serialInv_new] by simp
  then have o: "ordered (mCommandProcessorCurrentQueueSerial s) (mInFlightCommands s) (queuedSerials s)"
    by (simp add: orderInv_def)
  show ?thesis
    using o lastSubmitted_run[OF i, of later]
    by (auto simp: ordered_def sorted_wrt_append getCurrentQueueSerial_def getLastSubmittedSerial_def)
qed

theorem inflight_serials_increasing_witness:
  "map serial (mInFlightCommands twoInFlight) = [2, 3] \<and>
   sorted_wrt (<) (map serial (mInFlightCommands twoInFlight)) \<and>
   getLastSubmittedSerial twoInFlight \<le>
     getLastSubmittedSerial (run [QueueCommand CallerContext envReady (flushWith [])] twoInFlight)"
  using inflight_serials_increasing[OF twoInFlight_def, of "[QueueCommand CallerContext envReady (flushWith [])]"]
  by (simp add: twoInFlight_lists)

section \<open>The Exit task\<close>




section \<open>Synchronous and asynchronous mode\<close>




end
